theory Spec2Isabelle
  imports Main "HOL-Library.Monad_Syntax"
begin

section \<open>The Enigma machine\<close>

text \<open>
  The repository's Enigma simulator (the module \<^verbatim>\<open>enigma.js\<close> of directory 6) is
  exercised by \<^verbatim>\<open>src/6/test_enigma.js\<close>; its method \<^verbatim>\<open>encryptChar\<close> is printed in full in the
  bug-fix report in \<^verbatim>\<open>src/unnamed/part_003\<close> (lines 83-99, the fixed version). The
  other members of the module (\<^verbatim>\<open>alphabet\<close>, \<^verbatim>\<open>REFLECTOR\<close>, \<^verbatim>\<open>plugboardSwap\<close>,
  the class \<^verbatim>\<open>Rotor\<close>, \<^verbatim>\<open>stepRotors\<close>, \<^verbatim>\<open>process\<close>) are not among the source
  files. The constant \<^verbatim>\<open>REFLECTOR\<close> is a parameter of the model; the others are
  modelled from the specification, and each such definition says so.

  A JavaScript value that is \<^verbatim>\<open>undefined\<close> (an index outside a string or an array)
  and a call the specification gives no result for are the value \<open>None\<close>.
  Text is a list of 8-bit characters; the case mapping is the ASCII one.
\<close>

subsection \<open>JavaScript primitives\<close>

text \<open>\<^verbatim>\<open>xs.indexOf(x)\<close>: the first index holding \<open>x\<close>, or \<open>-1\<close>.\<close>

fun indexOf :: "'a list \<Rightarrow> 'a \<Rightarrow> int" where
  "indexOf [] x = - 1"
| "indexOf (y # ys) x =
     (if y = x then 0 else (let k = indexOf ys x in if k < 0 then - 1 else k + 1))"

text \<open>\<^verbatim>\<open>xs[i]\<close>: the element at index \<open>i\<close>, \<^verbatim>\<open>undefined\<close> outside the range.\<close>

definition lookup :: "'a list \<Rightarrow> int \<Rightarrow> 'a option" where
  "lookup xs i = (if 0 \<le> i \<and> i < int (length xs) then Some (xs ! nat i) else None)"

text \<open>
  Modelled from the spec: the constant \<^verbatim>\<open>alphabet\<close> that \<^verbatim>\<open>encryptChar\<close> consults is
  not in the source files. Section 3: the 26 uppercase Latin letters, each with a
  stable index 0-25 (test 11 agrees: \<^verbatim>\<open>Q\<close> is at position 16).
\<close>

definition alphabet :: string where
  "alphabet = ''ABCDEFGHIJKLMNOPQRSTUVWXYZ''"

text \<open>The lowercase letters, in the order of the alphabet.\<close>

definition lowercase :: string where
  "lowercase = ''abcdefghijklmnopqrstuvwxyz''"

text \<open>
  \<^verbatim>\<open>text.toUpperCase()\<close> on ASCII text, character by character: a lowercase letter
  becomes the uppercase letter of the same index, every other character stays.
\<close>

definition toUpperChar :: "char \<Rightarrow> char" where
  "toUpperChar c = (case lookup alphabet (indexOf lowercase c) of Some u \<Rightarrow> u | None \<Rightarrow> c)"

definition toUpperCase :: "string \<Rightarrow> string" where
  "toUpperCase s = map toUpperChar s"

subsection \<open>Plugboard\<close>

text \<open>
  Modelled from the spec: \<^verbatim>\<open>plugboardSwap(c, pairs)\<close> is exported by the module and
  called by \<^verbatim>\<open>encryptChar\<close>, but its body is not in the source files. Section 4.3:
  if the letter is a member of some pair, its partner is returned; otherwise the letter
  is returned unchanged. The pairs are the two-element arrays of the tests
  (\<^verbatim>\<open>[['A', 'B'], ['C', 'D']]\<close>); where a letter is in several pairs, the first pair
  of the list decides.
\<close>

fun plugboardSwap :: "char \<Rightarrow> (char \<times> char) list \<Rightarrow> char" where
  "plugboardSwap c [] = c"
| "plugboardSwap c ((a, b) # pairs) =
     (if c = a then b else if c = b then a else plugboardSwap c pairs)"

subsection \<open>Rotor\<close>

text \<open>
  The fields are those of the constructor the tests call,
  \<^verbatim>\<open>new Rotor(wiring, notch, ringSetting, position)\<close>, for instance
  \<^verbatim>\<open>new Rotor('EKMFLGDQVZNTOWYHXUSPAIBRCJ', 'Q', 0, 25)\<close>.
\<close>

record rotor =
  wiring :: string
  notch :: char
  ringSetting :: int
  position :: int

definition Rotor :: "string \<Rightarrow> char \<Rightarrow> int \<Rightarrow> int \<Rightarrow> rotor" where
  "Rotor w n rs p = \<lparr>wiring = w, notch = n, ringSetting = rs, position = p\<rparr>"

text \<open>
  Modelled from the spec: the tables of a rotor are not in the source files. Section 3:
  a rotor definition has a 26-entry forward table from index to index. Here it is read
  off the wiring string: entry \<open>i\<close> is the index of the letter \<open>wiring[i]\<close>.
\<close>

definition forwardTable :: "rotor \<Rightarrow> int list" where
  "forwardTable r = map (indexOf alphabet) (wiring r)"

text \<open>
  Modelled from the spec: section 3, the backward table is the exact inverse of the
  forward table. Entry \<open>j\<close> is the index at which the forward table holds \<open>j\<close>.
\<close>

definition inverseTable :: "rotor \<Rightarrow> int list" where
  "inverseTable r = map (indexOf (forwardTable r)) [0..25]"

text \<open>
  Modelled from the spec: the body of \<^verbatim>\<open>Rotor.forward\<close> is not in the source files.
  Section 4.1, on letter indices:
  \<^verbatim>\<open>shiftedIn = (letterIndex + position - ringSetting) mod 26\<close>,
  \<^verbatim>\<open>out = forwardTable[shiftedIn]\<close>, result \<^verbatim>\<open>(out - position + ringSetting) mod 26\<close>.
\<close>

definition forwardIndex :: "rotor \<Rightarrow> int \<Rightarrow> int option" where
  "forwardIndex r letterIndex =
     (let shiftedIn = (letterIndex + position r - ringSetting r) mod 26 in
      case lookup (forwardTable r) shiftedIn of
        None \<Rightarrow> None
      | Some out \<Rightarrow> Some ((out - position r + ringSetting r) mod 26))"

text \<open>
  Modelled from the spec: the body of \<^verbatim>\<open>Rotor.backward\<close> is not in the source files.
  Section 4.1: the same shifting algebra, with the inverse table in place of the forward
  table.
\<close>

definition backwardIndex :: "rotor \<Rightarrow> int \<Rightarrow> int option" where
  "backwardIndex r letterIndex =
     (let shiftedIn = (letterIndex + position r - ringSetting r) mod 26 in
      case lookup (inverseTable r) shiftedIn of
        None \<Rightarrow> None
      | Some out \<Rightarrow> Some ((out - position r + ringSetting r) mod 26))"

text \<open>
  Modelled from the spec: \<^verbatim>\<open>this.rotors[i].forward(c)\<close>, as \<^verbatim>\<open>encryptChar\<close> calls it.
  The call hands over a letter and gets a letter back, while section 4.1 states the
  contract on letter indices; so the method converts the letter to its index, applies
  the algebra above, and converts the result back. A character outside the alphabet has
  no letter index.
\<close>

definition forward :: "rotor \<Rightarrow> char \<Rightarrow> char option" where
  "forward r c =
     (if c \<in> set alphabet
      then do { out \<leftarrow> forwardIndex r (indexOf alphabet c); lookup alphabet out }
      else None)"

text \<open>
  Modelled from the spec: \<^verbatim>\<open>this.rotors[i].backward(c)\<close>, as \<^verbatim>\<open>encryptChar\<close> calls
  it; the same conversion around the backward algebra.
\<close>

definition backward :: "rotor \<Rightarrow> char \<Rightarrow> char option" where
  "backward r c =
     (if c \<in> set alphabet
      then do { out \<leftarrow> backwardIndex r (indexOf alphabet c); lookup alphabet out }
      else None)"

text \<open>
  Modelled from the spec: the body of \<^verbatim>\<open>Rotor.step\<close> is not in the source files.
  Section 4.1: \<^verbatim>\<open>position = (position + 1) mod 26\<close> (test 10: from 25 to 0).
\<close>

definition step :: "rotor \<Rightarrow> rotor" where
  "step r = r\<lparr>position := (position r + 1) mod 26\<rparr>"

text \<open>
  Modelled from the spec: the body of \<^verbatim>\<open>Rotor.atNotch\<close> (the name the tests call) is
  not in the source files. Section 4.1: whether the position equals the notch index,
  here the index of the notch letter (test 11: notch \<^verbatim>\<open>Q\<close>, position 16).
\<close>

definition atNotch :: "rotor \<Rightarrow> bool" where
  "atNotch r = (position r = indexOf alphabet (notch r))"

subsection \<open>The machine\<close>

text \<open>
  The machine's fields are the two \<^verbatim>\<open>encryptChar\<close> reads: \<^verbatim>\<open>this.rotors\<close>, in the
  order of construction (left to right), and \<^verbatim>\<open>this.plugboardPairs\<close>.
\<close>

record enigma =
  rotors :: "rotor list"
  plugboardPairs :: "(char \<times> char) list"

text \<open>
  Modelled from the spec: \<^verbatim>\<open>stepRotors\<close> is not in the source files. Section 4.2, for
  the rotor sequence \<^verbatim>\<open>[left, middle, right]\<close>: both notch reads come first; the right
  rotor steps; if the right rotor was at its notch the middle rotor steps; if the middle
  rotor was at its notch the middle rotor steps again and the left rotor steps. The
  specification describes three rotors only, so any other count has no result.
\<close>

fun stepRotors :: "rotor list \<Rightarrow> rotor list option" where
  "stepRotors [left, middle, right] =
     (let middleAtNotch = atNotch middle;
          rightAtNotch = atNotch right;
          right1 = step right;
          middle1 = (if rightAtNotch then step middle else middle);
          middle2 = (if middleAtNotch then step middle1 else middle1);
          left1 = (if middleAtNotch then step left else left)
      in Some [left1, middle2, right1])"
| "stepRotors _ = None"

text \<open>
  The two loops of \<^verbatim>\<open>encryptChar\<close>, by their index.
  \<^verbatim>\<open>for (let i = this.rotors.length - 1; i >= 0; i--) c = this.rotors[i].forward(c);\<close>
  is \<open>forwardLoop rs (length rs) c\<close>: the first argument counts the rotors still to
  pass, so the rotor used is the one at index \<open>i\<close> when the counter is \<open>Suc i\<close>.
\<close>

fun forwardLoop :: "rotor list \<Rightarrow> nat \<Rightarrow> char \<Rightarrow> char option" where
  "forwardLoop rs 0 c = Some c"
| "forwardLoop rs (Suc i) c =
     (case forward (rs ! i) c of None \<Rightarrow> None | Some c' \<Rightarrow> forwardLoop rs i c')"

text \<open>
  \<^verbatim>\<open>for (let i = 0; i < this.rotors.length; i++) c = this.rotors[i].backward(c);\<close>
  is \<open>backwardLoop rs 0 c\<close>.
\<close>

function backwardLoop :: "rotor list \<Rightarrow> nat \<Rightarrow> char \<Rightarrow> char option" where
  "backwardLoop rs i c =
     (if i < length rs
      then (case backward (rs ! i) c of None \<Rightarrow> None | Some c' \<Rightarrow> backwardLoop rs (Suc i) c')
      else Some c)"
  by pat_completeness auto
termination
  by (relation "measure (\<lambda>(rs, i, c). length rs - i)") auto

declare backwardLoop.simps [simp del]

text \<open>
  \<^verbatim>\<open>encryptChar(c)\<close>, the fixed version of \<^verbatim>\<open>src/unnamed/part_003\<close>, lines 83-99.
  The constant \<^verbatim>\<open>REFLECTOR\<close> is not in the source files and is a parameter: a string
  indexed by letter index. A character outside the alphabet is returned before anything
  is stepped; otherwise the rotors step, and the letter passes the plugboard, the rotors
  from the last to the first, the reflector, the rotors from the first to the last, and
  the plugboard again. The result is the output character with the machine as the call
  leaves it.
\<close>

definition encryptChar :: "string \<Rightarrow> enigma \<Rightarrow> char \<Rightarrow> (char \<times> enigma) option" where
  "encryptChar REFLECTOR this c =
     (if c \<notin> set alphabet then Some (c, this)
      else do {
        rs \<leftarrow> stepRotors (rotors this);
        let this1 = this\<lparr>rotors := rs\<rparr>;
        let c1 = plugboardSwap c (plugboardPairs this1);
        c2 \<leftarrow> forwardLoop (rotors this1) (length (rotors this1)) c1;
        c3 \<leftarrow> lookup REFLECTOR (indexOf alphabet c2);
        c4 \<leftarrow> backwardLoop (rotors this1) 0 c3;
        let c5 = plugboardSwap c4 (plugboardPairs this1);
        Some (c5, this1)
      })"

text \<open>
  The version of \<^verbatim>\<open>encryptChar\<close> before the fix, which the same report prints
  (\<^verbatim>\<open>src/unnamed/part_003\<close>, lines 60-75): it returns the letter as the backward
  loop leaves it, without the second plugboard swap.
\<close>

definition encryptCharOriginal :: "string \<Rightarrow> enigma \<Rightarrow> char \<Rightarrow> (char \<times> enigma) option" where
  "encryptCharOriginal REFLECTOR this c =
     (if c \<notin> set alphabet then Some (c, this)
      else do {
        rs \<leftarrow> stepRotors (rotors this);
        let this1 = this\<lparr>rotors := rs\<rparr>;
        let c1 = plugboardSwap c (plugboardPairs this1);
        c2 \<leftarrow> forwardLoop (rotors this1) (length (rotors this1)) c1;
        c3 \<leftarrow> lookup REFLECTOR (indexOf alphabet c2);
        c4 \<leftarrow> backwardLoop (rotors this1) 0 c3;
        Some (c4, this1)
      })"

text \<open>
  The characters of a text through \<^verbatim>\<open>encryptChar\<close>, one after the other: each call runs
  on the machine as the call before left it, and the output characters are collected in
  order. The result is the output text with the machine as the last call leaves it.
\<close>

fun encryptChars :: "string \<Rightarrow> enigma \<Rightarrow> string \<Rightarrow> (string \<times> enigma) option" where
  "encryptChars REFLECTOR this [] = Some ([], this)"
| "encryptChars REFLECTOR this (c # cs) =
     (case encryptChar REFLECTOR this c of
        None \<Rightarrow> None
      | Some (c', this1) \<Rightarrow>
          (case encryptChars REFLECTOR this1 cs of
             None \<Rightarrow> None
           | Some (out, this2) \<Rightarrow> Some (c' # out, this2)))"

text \<open>
  Modelled from the spec: \<^verbatim>\<open>process\<close> is not in the source files. Section 4.6: the
  whole input is uppercased; then every character goes through \<^verbatim>\<open>encryptChar\<close> (which
  itself returns a character outside the alphabet unchanged and without stepping), and
  the results are appended in order.
\<close>

definition process :: "string \<Rightarrow> enigma \<Rightarrow> string \<Rightarrow> (string \<times> enigma) option" where
  "process REFLECTOR this text = encryptChars REFLECTOR this (toUpperCase text)"

subsection \<open>Well-formed configurations\<close>

text \<open>
  The invariants of section 3 of the specification, as predicates on the model's data.
  A rotor's wiring is a permutation of the alphabet (so its forward table is a
  permutation of 0-25). Ring settings and positions are not restricted: the algebra
  reduces them modulo 26.
\<close>

definition wf_rotor :: "rotor \<Rightarrow> bool" where
  "wf_rotor r = (distinct (wiring r) \<and> set (wiring r) = set alphabet)"

text \<open>
  The reflector has 26 entries, all of them letters; it is an involution
  (\<open>reflector(reflector(i)) = i\<close>) and maps no letter to itself.
\<close>

definition wf_reflector :: "string \<Rightarrow> bool" where
  "wf_reflector REFLECTOR =
     (length REFLECTOR = 26 \<and>
      list_all (\<lambda>i. REFLECTOR ! i \<in> set alphabet \<and> REFLECTOR ! i \<noteq> alphabet ! i \<and>
                    lookup REFLECTOR (indexOf alphabet (REFLECTOR ! i)) = Some (alphabet ! i))
        [0..<26])"

text \<open>
  The letters a pair list mentions, in order. A pair list is disjoint when no letter
  is mentioned twice, and a valid plugboard when, besides, it mentions letters only.
\<close>

definition plugLetters :: "(char \<times> char) list \<Rightarrow> char list" where
  "plugLetters pairs = concat (map (\<lambda>(a, b). [a, b]) pairs)"

definition disjointPairs :: "(char \<times> char) list \<Rightarrow> bool" where
  "disjointPairs pairs = distinct (plugLetters pairs)"

definition wf_plugboard :: "(char \<times> char) list \<Rightarrow> bool" where
  "wf_plugboard pairs = (disjointPairs pairs \<and> list_all (\<lambda>c. c \<in> set alphabet) (plugLetters pairs))"

text \<open>
  A valid machine: three well-formed rotors (the count the stepping mechanism is
  described for) and a valid plugboard.
\<close>

definition wf_enigma :: "enigma \<Rightarrow> bool" where
  "wf_enigma this =
     (length (rotors this) = 3 \<and> list_all wf_rotor (rotors this) \<and>
      wf_plugboard (plugboardPairs this))"

text \<open>A character that is a letter in neither case.\<close>

definition nonAlphabetic :: "char \<Rightarrow> bool" where
  "nonAlphabetic c = (c \<notin> set alphabet \<and> c \<notin> set lowercase)"

subsection \<open>Example data\<close>

text \<open>
  The wiring and notch of the rotor the tests construct (tests 10 and 11), and the
  plugboard pairs of tests 2 and 9. The module's rotor catalogue and its reflector are
  not in the source files; the example machine uses the tests' rotor three times, at
  different positions and ring settings, and the examples use the wiring of the
  historical reflector B.
\<close>

definition rotorI :: "int \<Rightarrow> int \<Rightarrow> rotor" where
  "rotorI = Rotor ''EKMFLGDQVZNTOWYHXUSPAIBRCJ'' CHR ''Q''"

definition reflectorB :: string where
  "reflectorB = ''YRUHQSLDPXNGOKMIEBFZCWVJAT''"

definition testPairs :: "(char \<times> char) list" where
  "testPairs = [(CHR ''A'', CHR ''B''), (CHR ''C'', CHR ''D'')]"

definition exampleMachine :: enigma where
  "exampleMachine = \<lparr>rotors = [rotorI 1 5, rotorI 0 16, rotorI 3 16], plugboardPairs = testPairs\<rparr>"

section \<open>Lemmas\<close>

subsection \<open>Indexing\<close>

lemma indexOf_notin: "x \<notin> set xs \<Longrightarrow> indexOf xs x = - 1"
  by (induction xs) (auto simp: Let_def)

lemma indexOf_in:
  "x \<in> set xs \<Longrightarrow> 0 \<le> indexOf xs x \<and> indexOf xs x < int (length xs) \<and> xs ! nat (indexOf xs x) = x"
proof (induction xs)
  case Nil
  then show ?case by simp
next
  case (Cons y ys)
  show ?case
  proof (cases "y = x")
    case True
    then show ?thesis by simp
  next
    case False
    with Cons.prems have "x \<in> set ys" by simp
    from Cons.IH [OF this] False show ?thesis
      by (simp add: Let_def nat_add_distrib)
  qed
qed

lemma indexOf_nth: "distinct xs \<Longrightarrow> i < length xs \<Longrightarrow> indexOf xs (xs ! i) = int i"
proof (induction xs arbitrary: i)
  case Nil
  then show ?case by simp
next
  case (Cons y ys)
  show ?case
  proof (cases i)
    case 0
    then show ?thesis by simp
  next
    case (Suc j)
    with Cons.prems have j: "j < length ys" and d: "distinct ys" and ny: "y \<notin> set ys"
      by simp_all
    from j ny have "ys ! j \<noteq> y" by (metis nth_mem)
    with Cons.IH [OF d j] Suc show ?thesis by (simp add: Let_def)
  qed
qed

lemma lookup_indexOf: "x \<in> set xs \<Longrightarrow> lookup xs (indexOf xs x) = Some x"
  using indexOf_in [of x xs] by (simp add: lookup_def)

subsection \<open>The alphabet\<close>

lemma length_alphabet: "length alphabet = 26"
  by (simp add: alphabet_def)

lemma distinct_alphabet: "distinct alphabet"
  by (simp add: alphabet_def)

lemma alphabet_index:
  assumes "c \<in> set alphabet"
  shows "0 \<le> indexOf alphabet c" and "indexOf alphabet c < 26"
    and "lookup alphabet (indexOf alphabet c) = Some c"
  using indexOf_in [OF assms] lookup_indexOf [OF assms] by (simp_all add: length_alphabet)

lemma alphabet_lookup:
  assumes "0 \<le> i" and "i < 26"
  obtains c where "lookup alphabet i = Some c" and "c \<in> set alphabet" and "indexOf alphabet c = i"
proof -
  from assms have n: "nat i < length alphabet" by (simp add: length_alphabet)
  have "lookup alphabet i = Some (alphabet ! nat i)"
    using assms by (simp add: lookup_def length_alphabet)
  moreover have "alphabet ! nat i \<in> set alphabet"
    using n by simp
  moreover have "indexOf alphabet (alphabet ! nat i) = i"
    using indexOf_nth [OF distinct_alphabet n] assms by simp
  ultimately show thesis by (rule that)
qed

subsection \<open>Rotor transforms\<close>

text \<open>
  On a rotor whose wiring is a permutation of the alphabet, \<open>forward\<close> and \<open>backward\<close>
  map letters to letters and undo each other, at every position and ring setting.
\<close>

lemma wf_rotor_length:
  assumes "wf_rotor r"
  shows "length (wiring r) = 26"
proof -
  from assms have d: "distinct (wiring r)" and s: "set (wiring r) = set alphabet"
    by (simp_all add: wf_rotor_def)
  have "length (wiring r) = card (set (wiring r))"
    using d by (rule distinct_card [symmetric])
  also have "\<dots> = card (set alphabet)" by (simp only: s)
  also have "\<dots> = length alphabet"
    using distinct_alphabet by (rule distinct_card)
  finally show ?thesis by (simp add: length_alphabet)
qed

lemma forwardTable_props:
  assumes "wf_rotor r"
  shows "length (forwardTable r) = 26" and "distinct (forwardTable r)"
    and "set (forwardTable r) = {0..25}"
proof -
  show "length (forwardTable r) = 26"
    using wf_rotor_length [OF assms] by (simp add: forwardTable_def)
  have inj: "inj_on (indexOf alphabet) (set alphabet)"
    by (rule inj_onI) (metis alphabet_index(3) option.inject)
  show "distinct (forwardTable r)"
    using assms inj by (simp add: forwardTable_def wf_rotor_def distinct_map)
  have "indexOf alphabet ` set alphabet = {0..25}"
  proof (rule set_eqI)
    fix i :: int
    show "i \<in> indexOf alphabet ` set alphabet \<longleftrightarrow> i \<in> {0..25}"
    proof
      assume "i \<in> indexOf alphabet ` set alphabet"
      then show "i \<in> {0..25}" using alphabet_index(1,2) by fastforce
    next
      assume "i \<in> {0..25}"
      then have "0 \<le> i" "i < 26" by simp_all
      then obtain c where "c \<in> set alphabet" "indexOf alphabet c = i"
        by (rule alphabet_lookup)
      then show "i \<in> indexOf alphabet ` set alphabet" by blast
    qed
  qed
  then show "set (forwardTable r) = {0..25}"
    using assms by (simp add: forwardTable_def wf_rotor_def)
qed

lemma lookup_inverseTable:
  "0 \<le> i \<Longrightarrow> i < 26 \<Longrightarrow> lookup (inverseTable r) i = Some (indexOf (forwardTable r) i)"
  by (simp add: lookup_def inverseTable_def)

lemma shift_cancel:
  fixes y p g :: int
  assumes "0 \<le> y" and "y < 26"
  shows "((y - p + g) mod 26 + p - g) mod 26 = y"
    and "((y + p - g) mod 26 - p + g) mod 26 = y"
proof -
  have "((y - p + g) mod 26 + p - g) mod 26 = ((y - p + g) mod 26 + (p - g)) mod 26"
    by (simp add: algebra_simps)
  also have "\<dots> = ((y - p + g) + (p - g)) mod 26"
    by (rule mod_add_left_eq)
  also have "\<dots> = y" using assms by simp
  finally show "((y - p + g) mod 26 + p - g) mod 26 = y" .
  have "((y + p - g) mod 26 - p + g) mod 26 = ((y + p - g) mod 26 + (g - p)) mod 26"
    by (simp add: algebra_simps)
  also have "\<dots> = ((y + p - g) + (g - p)) mod 26"
    by (rule mod_add_left_eq)
  also have "\<dots> = y" using assms by simp
  finally show "((y + p - g) mod 26 - p + g) mod 26 = y" .
qed

lemma forwardIndex_backwardIndex:
  assumes w: "wf_rotor r" and x: "0 \<le> x" "x < 26"
  obtains y where "forwardIndex r x = Some y" and "0 \<le> y" and "y < 26"
    and "backwardIndex r y = Some x"
proof -
  define s where "s = (x + position r - ringSetting r) mod 26"
  define out where "out = forwardTable r ! nat s"
  define y where "y = (out - position r + ringSetting r) mod 26"
  have s: "0 \<le> s" "s < 26" by (simp_all add: s_def)
  then have ns: "nat s < length (forwardTable r)"
    using forwardTable_props(1) [OF w] by simp
  have l: "lookup (forwardTable r) s = Some out"
    using s forwardTable_props(1) [OF w] by (simp add: lookup_def out_def)
  have "out \<in> set (forwardTable r)" using ns by (simp add: out_def)
  then have o: "0 \<le> out" "out < 26" using forwardTable_props(3) [OF w] by simp_all
  have f: "forwardIndex r x = Some y"
    using l by (simp add: forwardIndex_def s_def [symmetric] y_def)
  have sh: "(y + position r - ringSetting r) mod 26 = out"
    unfolding y_def by (rule shift_cancel(1) [OF o])
  have "indexOf (forwardTable r) out = s"
    using indexOf_nth [OF forwardTable_props(2) [OF w] ns] s by (simp add: out_def)
  then have "lookup (inverseTable r) out = Some s"
    using o by (simp add: lookup_inverseTable)
  moreover have "(s - position r + ringSetting r) mod 26 = x"
    unfolding s_def by (rule shift_cancel(2) [OF x])
  ultimately have b: "backwardIndex r y = Some x"
    by (simp add: backwardIndex_def sh)
  show thesis by (rule that [OF f _ _ b]) (simp_all add: y_def)
qed

lemma backwardIndex_forwardIndex:
  assumes w: "wf_rotor r" and x: "0 \<le> x" "x < 26"
  obtains y where "backwardIndex r x = Some y" and "0 \<le> y" and "y < 26"
    and "forwardIndex r y = Some x"
proof -
  define s where "s = (x + position r - ringSetting r) mod 26"
  define out where "out = indexOf (forwardTable r) s"
  define y where "y = (out - position r + ringSetting r) mod 26"
  have s: "0 \<le> s" "s < 26" by (simp_all add: s_def)
  then have "s \<in> set (forwardTable r)" using forwardTable_props(3) [OF w] by simp
  from indexOf_in [OF this]
  have o: "0 \<le> out" "out < 26" and n: "forwardTable r ! nat out = s"
    using forwardTable_props(1) [OF w] by (simp_all add: out_def)
  have b: "backwardIndex r x = Some y"
    using s by (simp add: backwardIndex_def s_def [symmetric] lookup_inverseTable y_def out_def)
  have sh: "(y + position r - ringSetting r) mod 26 = out"
    unfolding y_def by (rule shift_cancel(1) [OF o])
  have "lookup (forwardTable r) out = Some s"
    using o n forwardTable_props(1) [OF w] by (simp add: lookup_def)
  moreover have "(s - position r + ringSetting r) mod 26 = x"
    unfolding s_def by (rule shift_cancel(2) [OF x])
  ultimately have f: "forwardIndex r y = Some x"
    by (simp add: forwardIndex_def sh)
  show thesis by (rule that [OF b _ _ f]) (simp_all add: y_def)
qed

lemma forward_backward:
  assumes w: "wf_rotor r" and c: "c \<in> set alphabet"
  obtains d where "forward r c = Some d" and "d \<in> set alphabet" and "backward r d = Some c"
proof -
  note ci = alphabet_index [OF c]
  from forwardIndex_backwardIndex [OF w ci(1,2)]
  obtain y where y: "forwardIndex r (indexOf alphabet c) = Some y" "0 \<le> y" "y < 26"
    "backwardIndex r y = Some (indexOf alphabet c)" by blast
  from alphabet_lookup [OF y(2,3)]
  obtain d where d: "lookup alphabet y = Some d" "d \<in> set alphabet" "indexOf alphabet d = y"
    by blast
  have f: "forward r c = Some d" using c y(1) d(1) by (simp add: forward_def)
  have b: "backward r d = Some c" using d y(4) ci(3) by (simp add: backward_def)
  show thesis using f d(2) b by (rule that)
qed

lemma backward_forward:
  assumes w: "wf_rotor r" and c: "c \<in> set alphabet"
  obtains d where "backward r c = Some d" and "d \<in> set alphabet" and "forward r d = Some c"
proof -
  note ci = alphabet_index [OF c]
  from backwardIndex_forwardIndex [OF w ci(1,2)]
  obtain y where y: "backwardIndex r (indexOf alphabet c) = Some y" "0 \<le> y" "y < 26"
    "forwardIndex r y = Some (indexOf alphabet c)" by blast
  from alphabet_lookup [OF y(2,3)]
  obtain d where d: "lookup alphabet y = Some d" "d \<in> set alphabet" "indexOf alphabet d = y"
    by blast
  have b: "backward r c = Some d" using c y(1) d(1) by (simp add: backward_def)
  have f: "forward r d = Some c" using d y(4) ci(3) by (simp add: forward_def)
  show thesis using b d(2) f by (rule that)
qed

subsection \<open>Plugboard\<close>

lemma plugLetters_Cons: "plugLetters ((a, b) # pairs) = a # b # plugLetters pairs"
  by (simp add: plugLetters_def)

lemma plugboardSwap_notin: "c \<notin> set (plugLetters pairs) \<Longrightarrow> plugboardSwap c pairs = c"
  by (induction c pairs rule: plugboardSwap.induct) (auto simp: plugLetters_Cons)

lemma plugboardSwap_range: "plugboardSwap c pairs \<in> insert c (set (plugLetters pairs))"
  by (induction c pairs rule: plugboardSwap.induct) (auto simp: plugLetters_Cons)

lemma plugboardSwap_involution:
  "disjointPairs pairs \<Longrightarrow> plugboardSwap (plugboardSwap c pairs) pairs = c"
proof (induction pairs)
  case Nil
  then show ?case by simp
next
  case (Cons p pairs)
  obtain a b where p: "p = (a, b)" by (cases p)
  from Cons.prems have ab: "a \<noteq> b" and a: "a \<notin> set (plugLetters pairs)"
    and b: "b \<notin> set (plugLetters pairs)" and d: "disjointPairs pairs"
    by (auto simp: disjointPairs_def p plugLetters_Cons)
  show ?case
  proof (cases "c = a \<or> c = b")
    case True
    then show ?thesis using ab by (auto simp: p)
  next
    case False
    have "plugboardSwap c pairs \<in> insert c (set (plugLetters pairs))"
      by (rule plugboardSwap_range)
    with False a b have "plugboardSwap c pairs \<noteq> a" "plugboardSwap c pairs \<noteq> b"
      by auto
    with False Cons.IH [OF d] show ?thesis by (simp add: p)
  qed
qed

lemma plugboardSwap_partner:
  "disjointPairs pairs \<Longrightarrow> (a, b) \<in> set pairs \<Longrightarrow>
     plugboardSwap a pairs = b \<and> plugboardSwap b pairs = a"
proof (induction pairs)
  case Nil
  then show ?case by simp
next
  case (Cons p pairs)
  obtain x y where p: "p = (x, y)" by (cases p)
  from Cons.prems(1) have xy: "x \<noteq> y" and x: "x \<notin> set (plugLetters pairs)"
    and y: "y \<notin> set (plugLetters pairs)" and d: "disjointPairs pairs"
    by (auto simp: disjointPairs_def p plugLetters_Cons)
  show ?case
  proof (cases "(a, b) = (x, y)")
    case True
    then show ?thesis using xy by (auto simp: p)
  next
    case False
    with Cons.prems(2) have m: "(a, b) \<in> set pairs" by (auto simp: p)
    then have "a \<in> set (plugLetters pairs)" "b \<in> set (plugLetters pairs)"
      by (auto simp: plugLetters_def)
    with x y have "a \<noteq> x" "a \<noteq> y" "b \<noteq> x" "b \<noteq> y" by auto
    with Cons.IH [OF d m] show ?thesis by (simp add: p)
  qed
qed

lemma plugboardSwap_alphabet:
  "wf_plugboard pairs \<Longrightarrow> c \<in> set alphabet \<Longrightarrow> plugboardSwap c pairs \<in> set alphabet"
  using plugboardSwap_range [of c pairs] by (auto simp: wf_plugboard_def list_all_iff)

subsection \<open>Reflector and stepping\<close>

lemma reflector_props:
  assumes w: "wf_reflector R" and c: "c \<in> set alphabet"
  obtains d where "lookup R (indexOf alphabet c) = Some d" and "d \<in> set alphabet"
    and "d \<noteq> c" and "lookup R (indexOf alphabet d) = Some c"
proof -
  note ci = alphabet_index [OF c]
  define i where "i = nat (indexOf alphabet c)"
  have i: "i < 26" using ci by (simp add: i_def)
  have ai: "alphabet ! i = c"
    using ci(1,3) by (simp add: lookup_def i_def split: if_splits)
  from w i have "R ! i \<in> set alphabet" "R ! i \<noteq> alphabet ! i"
    "lookup R (indexOf alphabet (R ! i)) = Some (alphabet ! i)"
    by (simp_all add: wf_reflector_def list_all_iff)
  moreover have "lookup R (indexOf alphabet c) = Some (R ! i)"
    using w ci by (simp add: lookup_def wf_reflector_def i_def)
  ultimately show thesis using ai by (intro that [of "R ! i"]) simp_all
qed

lemma step_wf: "wf_rotor (step r) = wf_rotor r"
  by (simp add: step_def wf_rotor_def)

lemma stepRotors_wf:
  assumes "length rs = 3" and "list_all wf_rotor rs"
  obtains rs' where "stepRotors rs = Some rs'" and "length rs' = 3" and "list_all wf_rotor rs'"
proof -
  from assms(1) obtain l m r where rs: "rs = [l, m, r]"
    by (auto simp: length_Suc_conv numeral_3_eq_3)
  show thesis
    using assms(2) by (intro that [of "the (stepRotors rs)"]) (simp_all add: rs Let_def step_wf)
qed

subsection \<open>The rotor loops\<close>

text \<open>
  The loop that counts down applies \<open>forward\<close> of the last rotor first; the loop that
  counts up applies \<open>backward\<close> of the first rotor first.
\<close>

lemma foldr_bind_None: "foldr (\<lambda>r acc. Option.bind acc (f r)) rs None = None"
  by (induction rs) simp_all

lemma fold_bind_None: "fold (\<lambda>r acc. Option.bind acc (f r)) rs None = None"
  by (induction rs) simp_all

lemma forwardLoop_take:
  "n \<le> length rs \<Longrightarrow>
     forwardLoop rs n c = foldr (\<lambda>r acc. Option.bind acc (forward r)) (take n rs) (Some c)"
proof (induction n arbitrary: c)
  case 0
  then show ?case by simp
next
  case (Suc n)
  then have n: "n < length rs" by simp
  show ?case
  proof (cases "forward (rs ! n) c")
    case None
    then show ?thesis using n by (simp add: take_Suc_conv_app_nth foldr_bind_None)
  next
    case (Some c')
    then show ?thesis using n Suc.IH [of c'] by (simp add: take_Suc_conv_app_nth)
  qed
qed

lemma forwardLoop_foldr:
  "forwardLoop rs (length rs) c = foldr (\<lambda>r acc. Option.bind acc (forward r)) rs (Some c)"
  by (simp add: forwardLoop_take)

lemma backwardLoop_drop:
  "backwardLoop rs i c = fold (\<lambda>r acc. Option.bind acc (backward r)) (drop i rs) (Some c)"
proof (induction rs i c rule: backwardLoop.induct)
  case (1 rs i c)
  show ?case
  proof (cases "i < length rs")
    case False
    then show ?thesis by (simp add: backwardLoop.simps [of rs i c])
  next
    case True
    then have d: "drop i rs = rs ! i # drop (Suc i) rs" by (simp add: Cons_nth_drop_Suc)
    show ?thesis
    proof (cases "backward (rs ! i) c")
      case None
      then show ?thesis using True
        by (simp add: backwardLoop.simps [of rs i c] d fold_bind_None)
    next
      case (Some c')
      then show ?thesis using True "1.IH" [OF True Some]
        by (simp add: backwardLoop.simps [of rs i c] d)
    qed
  qed
qed

lemma backwardLoop_fold:
  "backwardLoop rs 0 c = fold (\<lambda>r acc. Option.bind acc (backward r)) rs (Some c)"
  by (simp add: backwardLoop_drop)

lemma rotors_forward_backward:
  assumes "list_all wf_rotor rs" and "c \<in> set alphabet"
  shows "\<exists>d. forwardLoop rs (length rs) c = Some d \<and> d \<in> set alphabet \<and>
             backwardLoop rs 0 d = Some c"
  using assms unfolding forwardLoop_foldr backwardLoop_fold
proof (induction rs arbitrary: c)
  case Nil
  then show ?case by simp
next
  case (Cons r rs)
  then have r: "wf_rotor r" and rs: "list_all wf_rotor rs" by simp_all
  from Cons.IH [OF rs Cons.prems(2)]
  obtain e where e: "foldr (\<lambda>r acc. Option.bind acc (forward r)) rs (Some c) = Some e"
    "e \<in> set alphabet" "fold (\<lambda>r acc. Option.bind acc (backward r)) rs (Some e) = Some c"
    by blast
  from forward_backward [OF r e(2)]
  obtain d where d: "forward r e = Some d" "d \<in> set alphabet" "backward r d = Some e"
    by blast
  show ?case using e d by simp
qed

lemma rotors_backward_forward:
  assumes "list_all wf_rotor rs" and "c \<in> set alphabet"
  shows "\<exists>d. backwardLoop rs 0 c = Some d \<and> d \<in> set alphabet \<and>
             forwardLoop rs (length rs) d = Some c"
  using assms unfolding forwardLoop_foldr backwardLoop_fold
proof (induction rs arbitrary: c)
  case Nil
  then show ?case by simp
next
  case (Cons r rs)
  then have r: "wf_rotor r" and rs: "list_all wf_rotor rs" by simp_all
  from backward_forward [OF r Cons.prems(2)]
  obtain e where e: "backward r c = Some e" "e \<in> set alphabet" "forward r e = Some c"
    by blast
  from Cons.IH [OF rs e(2)]
  obtain d where d: "fold (\<lambda>r acc. Option.bind acc (backward r)) rs (Some e) = Some d"
    "d \<in> set alphabet" "foldr (\<lambda>r acc. Option.bind acc (forward r)) rs (Some d) = Some e"
    by blast
  show ?case using e d by simp
qed

subsection \<open>One character\<close>

text \<open>
  On a valid machine \<^verbatim>\<open>encryptChar\<close> maps a letter \<open>c\<close> to another letter \<open>d\<close>, and
  from the same machine state it maps \<open>d\<close> to \<open>c\<close>, leaving the same state. The proof
  uses the parts that are modelled from the specification only through their contracts:
  \<open>forward\<close> and \<open>backward\<close> undo each other on letters, the reflector is an
  involution without fixed letter, the plugboard swap is an involution on letters, and
  stepping does not look at the character.
\<close>

lemma encryptChar_nonletter: "c \<notin> set alphabet \<Longrightarrow> encryptChar R this c = Some (c, this)"
  by (simp add: encryptChar_def)

lemma encryptChar_letter:
  assumes R: "wf_reflector R" and w: "wf_enigma this" and c: "c \<in> set alphabet"
  obtains d this1 where "encryptChar R this c = Some (d, this1)" and "d \<in> set alphabet"
    and "d \<noteq> c" and "encryptChar R this d = Some (c, this1)" and "wf_enigma this1"
proof -
  from w have len: "length (rotors this) = 3" and wr: "list_all wf_rotor (rotors this)"
    and wp: "wf_plugboard (plugboardPairs this)" by (simp_all add: wf_enigma_def)
  from stepRotors_wf [OF len wr]
  obtain rs where rs: "stepRotors (rotors this) = Some rs" "length rs = 3" "list_all wf_rotor rs"
    by blast
  define ps where "ps = plugboardPairs this"
  have dp: "disjointPairs ps" using wp by (simp add: ps_def wf_plugboard_def)
  define c1 where "c1 = plugboardSwap c ps"
  have c1: "c1 \<in> set alphabet"
    unfolding c1_def ps_def by (rule plugboardSwap_alphabet [OF wp c])
  from rotors_forward_backward [OF rs(3) c1]
  obtain c2 where c2: "forwardLoop rs (length rs) c1 = Some c2" "c2 \<in> set alphabet"
    "backwardLoop rs 0 c2 = Some c1" by blast
  from reflector_props [OF R c2(2)]
  obtain c3 where c3: "lookup R (indexOf alphabet c2) = Some c3" "c3 \<in> set alphabet"
    "c3 \<noteq> c2" "lookup R (indexOf alphabet c3) = Some c2" by blast
  from rotors_backward_forward [OF rs(3) c3(2)]
  obtain c4 where c4: "backwardLoop rs 0 c3 = Some c4" "c4 \<in> set alphabet"
    "forwardLoop rs (length rs) c4 = Some c3" by blast
  define d where "d = plugboardSwap c4 ps"
  have d: "d \<in> set alphabet"
    unfolding d_def ps_def by (rule plugboardSwap_alphabet [OF wp c4(2)])
  have inv: "plugboardSwap d ps = c4" "plugboardSwap c1 ps = c"
    unfolding d_def c1_def by (rule plugboardSwap_involution [OF dp])+
  have e1: "encryptChar R this c = Some (d, this\<lparr>rotors := rs\<rparr>)"
    using c rs(1) c2(1) c3(1) c4(1)
    by (simp add: encryptChar_def ps_def [symmetric] c1_def [symmetric] d_def)
  have e2: "encryptChar R this d = Some (c, this\<lparr>rotors := rs\<rparr>)"
    using d rs(1) c4(3) c3(4) c2(3) inv
    by (simp add: encryptChar_def ps_def [symmetric])
  have ne: "d \<noteq> c"
  proof
    assume "d = c"
    then have "c4 = c1" using inv(1) by (simp add: c1_def)
    with c4(3) c2(1) c3(3) show False by simp
  qed
  have w1: "wf_enigma (this\<lparr>rotors := rs\<rparr>)"
    using rs wp by (simp add: wf_enigma_def)
  show thesis using e1 d ne e2 w1 by (rule that)
qed

text \<open>
  The version before the fix is not symmetric once a plugboard pair is configured: on
  the example machine (pairs A-B and C-D) it maps \<^verbatim>\<open>M\<close> to \<^verbatim>\<open>A\<close>, but \<^verbatim>\<open>A\<close> to
  \<^verbatim>\<open>S\<close>, whereas the fixed version maps \<^verbatim>\<open>M\<close> to \<^verbatim>\<open>B\<close> and \<^verbatim>\<open>B\<close> to \<^verbatim>\<open>M\<close>.
\<close>

lemma encryptCharOriginal_not_symmetric:
  "map_option fst (encryptCharOriginal reflectorB exampleMachine CHR ''M'') = Some CHR ''A''"
  "map_option fst (encryptCharOriginal reflectorB exampleMachine CHR ''A'') = Some CHR ''S''"
  "map_option fst (encryptChar reflectorB exampleMachine CHR ''M'') = Some CHR ''B''"
  "map_option fst (encryptChar reflectorB exampleMachine CHR ''B'') = Some CHR ''M''"
  by code_simp+

subsection \<open>Case mapping\<close>

lemma alphabet_not_lowercase: "c \<in> set alphabet \<Longrightarrow> c \<notin> set lowercase"
  by (auto simp: alphabet_def lowercase_def)

lemma toUpperChar_id: "c \<notin> set lowercase \<Longrightarrow> toUpperChar c = c"
  by (simp add: toUpperChar_def indexOf_notin lookup_def)

lemma length_lowercase: "length lowercase = 26"
  by (simp add: lowercase_def)

lemma toUpperChar_alphabet: "c \<in> set lowercase \<Longrightarrow> toUpperChar c \<in> set alphabet"
proof -
  assume "c \<in> set lowercase"
  from indexOf_in [OF this]
  have "0 \<le> indexOf lowercase c" "indexOf lowercase c < 26"
    by (simp_all add: length_lowercase)
  from alphabet_lookup [OF this]
  obtain u where "lookup alphabet (indexOf lowercase c) = Some u" "u \<in> set alphabet"
    by blast
  then show ?thesis by (simp add: toUpperChar_def)
qed

lemma toUpperChar_not_lowercase: "toUpperChar c \<notin> set lowercase"
  by (cases "c \<in> set lowercase")
    (simp_all add: toUpperChar_id toUpperChar_alphabet alphabet_not_lowercase)

lemma toUpperChar_idem: "toUpperChar (toUpperChar c) = toUpperChar c"
  by (rule toUpperChar_id) (rule toUpperChar_not_lowercase)

lemma toUpperCase_idem: "toUpperCase (toUpperCase s) = toUpperCase s"
  by (simp add: toUpperCase_def toUpperChar_idem)

lemma toUpperCase_id: "set s \<inter> set lowercase = {} \<Longrightarrow> toUpperCase s = s"
  unfolding toUpperCase_def by (induction s) (simp_all add: toUpperChar_id)

lemma toUpperCase_not_lowercase: "set (toUpperCase s) \<inter> set lowercase = {}"
  unfolding toUpperCase_def by (induction s) (simp_all add: toUpperChar_not_lowercase)

lemma toUpperCase_append: "toUpperCase (xs @ ys) = toUpperCase xs @ toUpperCase ys"
  by (simp add: toUpperCase_def)

subsection \<open>Whole texts\<close>

lemma encryptChars_length:
  "encryptChars R this s = Some (out, this1) \<Longrightarrow> length out = length s"
  by (induction s arbitrary: this out) (auto split: option.splits)

lemma encryptChars_append:
  "encryptChars R this (xs @ ys) =
     (case encryptChars R this xs of
        None \<Rightarrow> None
      | Some (out1, this1) \<Rightarrow>
          (case encryptChars R this1 ys of
             None \<Rightarrow> None
           | Some (out2, this2) \<Rightarrow> Some (out1 @ out2, this2)))"
  by (induction xs arbitrary: this) (auto split: option.splits)

lemma encryptChars_insert:
  assumes c: "c \<notin> set alphabet"
    and h: "encryptChars R this (xs @ ys) = Some (out, this1)"
  shows "encryptChars R this (xs @ c # ys) =
           Some (take (length xs) out @ c # drop (length xs) out, this1)"
proof -
  from h obtain out1 this2 out2
    where o1: "encryptChars R this xs = Some (out1, this2)"
      and o2: "encryptChars R this2 ys = Some (out2, this1)"
      and o: "out = out1 @ out2"
    by (auto simp: encryptChars_append split: option.splits)
  have l: "length out1 = length xs" using o1 by (rule encryptChars_length)
  have "encryptChars R this (xs @ c # ys) = Some (out1 @ c # out2, this1)"
    by (simp add: encryptChars_append o1 o2 encryptChar_nonletter [OF c])
  then show ?thesis by (simp add: o l)
qed

lemma encryptChar_total:
  assumes R: "wf_reflector R" and w: "wf_enigma this"
  obtains d this1 where "encryptChar R this c = Some (d, this1)" and "wf_enigma this1"
    and "encryptChar R this d = Some (c, this1)" and "d \<in> insert c (set alphabet)"
proof (cases "c \<in> set alphabet")
  case True
  from encryptChar_letter [OF R w True] show thesis using that by blast
next
  case False
  then have "encryptChar R this c = Some (c, this)" by (rule encryptChar_nonletter)
  then show thesis using w that by blast
qed

lemma encryptChars_round_trip:
  assumes R: "wf_reflector R" and w: "wf_enigma this"
  shows "\<exists>out this1. encryptChars R this s = Some (out, this1) \<and>
           encryptChars R this out = Some (s, this1) \<and>
           set out \<subseteq> set s \<union> set alphabet \<and> wf_enigma this1"
  using w
proof (induction s arbitrary: this)
  case Nil
  then show ?case by simp
next
  case (Cons c s)
  from encryptChar_total [OF R Cons.prems, of c]
  obtain d this1 where d: "encryptChar R this c = Some (d, this1)" "wf_enigma this1"
    "encryptChar R this d = Some (c, this1)" "d \<in> insert c (set alphabet)" by blast
  from Cons.IH [OF d(2)]
  obtain out this2 where o: "encryptChars R this1 s = Some (out, this2)"
    "encryptChars R this1 out = Some (s, this2)" "set out \<subseteq> set s \<union> set alphabet"
    "wf_enigma this2" by blast
  have "encryptChars R this (c # s) = Some (d # out, this2)" using d(1) o(1) by simp
  moreover have "encryptChars R this (d # out) = Some (c # s, this2)" using d(3) o(2) by simp
  moreover have "set (d # out) \<subseteq> set (c # s) \<union> set alphabet" using d(4) o(3) by auto
  ultimately show ?case using o(4) by blast
qed

text \<open>
  On a valid machine the model of \<^verbatim>\<open>process\<close> has a result for every text, with one
  output character per input character; the empty text gives the empty text on any
  machine (test 15).
\<close>

lemma process_empty: "process R this [] = Some ([], this)"
  by (simp add: process_def toUpperCase_def)

lemma process_valid_total:
  assumes "wf_reflector R" and "wf_enigma this"
  shows "\<exists>out this1. process R this s = Some (out, this1) \<and> length out = length s"
proof -
  from encryptChars_round_trip [OF assms, of "toUpperCase s"]
  obtain out this1 where o: "encryptChars R this (toUpperCase s) = Some (out, this1)"
    by blast
  from encryptChars_length [OF o] have "length out = length s"
    by (simp add: toUpperCase_def)
  with o show ?thesis by (simp add: process_def)
qed

subsection \<open>The tests on a single rotor\<close>

text \<open>
  Tests 10 and 11 of \<^verbatim>\<open>src/6/test_enigma.js\<close> hold of the modelled \<open>step\<close> and
  \<open>atNotch\<close>: stepping from position 25 wraps to 0, and the rotor with notch \<^verbatim>\<open>Q\<close>
  is at its notch at position 16.
\<close>

lemma test_10_rotor_stepping:
  "position (step (Rotor ''EKMFLGDQVZNTOWYHXUSPAIBRCJ'' CHR ''Q'' 0 25)) = 0"
  by (simp add: step_def Rotor_def)

lemma test_11_rotor_notch:
  "atNotch (Rotor ''EKMFLGDQVZNTOWYHXUSPAIBRCJ'' CHR ''Q'' 0 16)"
  by (simp add: atNotch_def Rotor_def alphabet_def)

section \<open>The claims\<close>

text \<open>
  C1: \<^verbatim>\<open>encryptChar\<close> (\<^verbatim>\<open>src/unnamed/part_003\<close>, lines 83-99) is symmetric at every
  state of a valid machine: if it maps \<open>c\<close> to \<open>d\<close>, then from the same state it maps
  \<open>d\<close> to \<open>c\<close>, and both calls leave the same state. So the characters of any text
  \<open>S\<close>, passed through \<^verbatim>\<open>encryptChar\<close> one after the other, give a text \<open>X\<close> whose
  characters, passed the same way from the same initial state, give \<open>S\<close> again. Hence
  for a text \<open>T\<close> without lowercase letters (uppercase letters and non-alphabetic
  characters) \<^verbatim>\<open>process\<close> yields a ciphertext \<open>X\<close>, and \<^verbatim>\<open>process\<close> on a machine in the
  same initial state, given \<open>X\<close>, yields \<open>T\<close>. A second machine constructed with the
  same configuration and not advanced is the same value \<open>this\<close>. The plugboard is any
  valid one, the empty one included.
\<close>

theorem process_round_trip:
  assumes "wf_reflector R" and "wf_enigma this" and "set T \<inter> set lowercase = {}"
  shows "(\<exists>d this1. encryptChar R this c = Some (d, this1) \<and>
            encryptChar R this d = Some (c, this1)) \<and>
         (\<exists>X this1. encryptChars R this S = Some (X, this1) \<and>
            encryptChars R this X = Some (S, this1)) \<and>
         (\<exists>X this1. process R this T = Some (X, this1) \<and>
            process R this X = Some (T, this1))"
proof (intro conjI)
  from encryptChar_total [OF assms(1,2), of c]
  show "\<exists>d this1. encryptChar R this c = Some (d, this1) \<and>
          encryptChar R this d = Some (c, this1)"
    by blast
next
  from encryptChars_round_trip [OF assms(1,2), of S]
  show "\<exists>X this1. encryptChars R this S = Some (X, this1) \<and>
          encryptChars R this X = Some (S, this1)"
    by blast
next
  from encryptChars_round_trip [OF assms(1,2), of T]
  obtain X this1 where x: "encryptChars R this T = Some (X, this1)"
    "encryptChars R this X = Some (T, this1)" "set X \<subseteq> set T \<union> set alphabet"
    by blast
  have "set X \<inter> set lowercase = {}"
    using x(3) assms(3) alphabet_not_lowercase by blast
  then have "toUpperCase X = X" by (rule toUpperCase_id)
  moreover have "toUpperCase T = T" using assms(3) by (rule toUpperCase_id)
  ultimately show "\<exists>X this1. process R this T = Some (X, this1) \<and>
      process R this X = Some (T, this1)"
    using x(1,2) by (simp add: process_def)
qed

theorem process_round_trip_witness:
  "wf_reflector reflectorB \<and> wf_enigma exampleMachine \<and>
   wf_enigma (exampleMachine\<lparr>plugboardPairs := []\<rparr>) \<and>
   set ''HELLO, ABCD 123!'' \<inter> set lowercase = {} \<and>
   (\<exists>d this1. encryptChar reflectorB exampleMachine CHR ''H'' = Some (d, this1) \<and>
      encryptChar reflectorB exampleMachine d = Some (CHR ''H'', this1)) \<and>
   (\<exists>X this1. encryptChars reflectorB exampleMachine ''Hello'' = Some (X, this1) \<and>
      encryptChars reflectorB exampleMachine X = Some (''Hello'', this1)) \<and>
   (\<exists>X this1.
      process reflectorB exampleMachine ''HELLO, ABCD 123!'' = Some (X, this1) \<and>
      process reflectorB exampleMachine X = Some (''HELLO, ABCD 123!'', this1)) \<and>
   (\<exists>X this1.
      process reflectorB (exampleMachine\<lparr>plugboardPairs := []\<rparr>) ''HELLO, ABCD 123!'' =
        Some (X, this1) \<and>
      process reflectorB (exampleMachine\<lparr>plugboardPairs := []\<rparr>) X =
        Some (''HELLO, ABCD 123!'', this1))"
proof -
  have h1: "wf_reflector reflectorB" by code_simp
  have h2: "wf_enigma exampleMachine" by code_simp
  have h2': "wf_enigma (exampleMachine\<lparr>plugboardPairs := []\<rparr>)" by code_simp
  have h3: "set ''HELLO, ABCD 123!'' \<inter> set lowercase = {}" by code_simp
  show ?thesis
    using process_round_trip [OF h1 h2 h3, of "CHR ''H''" "''Hello''"]
      process_round_trip [OF h1 h2' h3, of "CHR ''H''" "''Hello''"] h1 h2 h2' h3
    by simp
qed

text \<open>
  C2: for an alphabetic character, \<^verbatim>\<open>encryptChar\<close> (\<^verbatim>\<open>src/unnamed/part_003\<close>, lines
  83-99) applies, in this order, the plugboard swap, the forward transform of the right,
  the middle and the left rotor (as stepped for this character), the reflector, the
  backward transform of the left, the middle and the right rotor, and the plugboard swap
  a second time. The rotors are \<open>[left, middle, right]\<close> in the order of construction, so
  the loop that counts down from the last index passes the right rotor first.
\<close>

theorem encryptChar_signal_path:
  assumes "c \<in> set alphabet"
    and "stepRotors (rotors this) = Some [left, middle, right]"
  shows "encryptChar R this c =
     do {
       c2 \<leftarrow> forward right (plugboardSwap c (plugboardPairs this));
       c3 \<leftarrow> forward middle c2;
       c4 \<leftarrow> forward left c3;
       c5 \<leftarrow> lookup R (indexOf alphabet c4);
       c6 \<leftarrow> backward left c5;
       c7 \<leftarrow> backward middle c6;
       c8 \<leftarrow> backward right c7;
       Some (plugboardSwap c8 (plugboardPairs this), this\<lparr>rotors := [left, middle, right]\<rparr>)
     }"
proof -
  let ?rs = "[left, middle, right]"
  have f: "forwardLoop ?rs (length ?rs) x =
             do { c3 \<leftarrow> forward right x; c4 \<leftarrow> forward middle c3; forward left c4 }" for x
    unfolding forwardLoop_foldr by simp
  have b: "backwardLoop ?rs 0 x =
             do { c7 \<leftarrow> backward left x; c8 \<leftarrow> backward middle c7; backward right c8 }" for x
    unfolding backwardLoop_fold by simp
  have e: "encryptChar R this c =
             do {
               c2 \<leftarrow> forwardLoop ?rs (length ?rs) (plugboardSwap c (plugboardPairs this));
               c5 \<leftarrow> lookup R (indexOf alphabet c2);
               c8 \<leftarrow> backwardLoop ?rs 0 c5;
               Some (plugboardSwap c8 (plugboardPairs this), this\<lparr>rotors := ?rs\<rparr>)
             }"
    using assms by (simp add: encryptChar_def)
  show ?thesis
    unfolding e f b by simp
qed

theorem encryptChar_signal_path_witness:
  "CHR ''H'' \<in> set alphabet \<and>
   stepRotors (rotors exampleMachine) = Some [rotorI 1 6, rotorI 0 18, rotorI 3 17] \<and>
   encryptChar reflectorB exampleMachine CHR ''H'' =
     do {
       c2 \<leftarrow> forward (rotorI 3 17) (plugboardSwap CHR ''H'' testPairs);
       c3 \<leftarrow> forward (rotorI 0 18) c2;
       c4 \<leftarrow> forward (rotorI 1 6) c3;
       c5 \<leftarrow> lookup reflectorB (indexOf alphabet c4);
       c6 \<leftarrow> backward (rotorI 1 6) c5;
       c7 \<leftarrow> backward (rotorI 0 18) c6;
       c8 \<leftarrow> backward (rotorI 3 17) c7;
       Some (plugboardSwap c8 testPairs,
             exampleMachine\<lparr>rotors := [rotorI 1 6, rotorI 0 18, rotorI 3 17]\<rparr>)
     }"
proof -
  have h1: "CHR ''H'' \<in> set alphabet" by (simp add: alphabet_def)
  have h2: "stepRotors (rotors exampleMachine) = Some [rotorI 1 6, rotorI 0 18, rotorI 3 17]"
    by code_simp
  have p: "plugboardPairs exampleMachine = testPairs" by (simp add: exampleMachine_def)
  show ?thesis
    using encryptChar_signal_path [OF h1 h2, of reflectorB] h1 h2 by (simp add: p)
qed

text \<open>
  C5: a character \<open>c\<close> that is not a letter is returned unchanged by \<^verbatim>\<open>encryptChar\<close>
  (the guard of line 84 of \<^verbatim>\<open>src/unnamed/part_003\<close>, ahead of the stepping of line 85)
  with the machine (so every rotor position) as it was. So where the characters of a
  text pass through \<^verbatim>\<open>encryptChar\<close> one after the other, inserting \<open>c\<close> anywhere into
  the input inserts \<open>c\<close> at the same place of the output and changes neither the other
  output characters nor the final machine state. The same holds of \<^verbatim>\<open>process\<close>, and
  \<^verbatim>\<open>process\<close> of the one-character text \<open>c\<close> gives \<open>c\<close> and the same machine.
\<close>

theorem non_alphabetic_pass_through:
  assumes "nonAlphabetic c"
  shows "encryptChar R this c = Some (c, this) \<and>
         (\<forall>xs ys out this1.
            encryptChars R this (xs @ ys) = Some (out, this1) \<longrightarrow>
            encryptChars R this (xs @ c # ys) =
              Some (take (length xs) out @ c # drop (length xs) out, this1)) \<and>
         process R this [c] = Some ([c], this) \<and>
         (\<forall>xs ys out this1.
            process R this (xs @ ys) = Some (out, this1) \<longrightarrow>
            process R this (xs @ c # ys) =
              Some (take (length xs) out @ c # drop (length xs) out, this1))"
proof -
  from assms have na: "c \<notin> set alphabet" and nl: "c \<notin> set lowercase"
    by (simp_all add: nonAlphabetic_def)
  have e: "encryptChar R this c = Some (c, this)"
    using na by (rule encryptChar_nonletter)
  have u: "toUpperChar c = c" using nl by (rule toUpperChar_id)
  have p: "process R this [c] = Some ([c], this)"
    by (simp add: process_def toUpperCase_def u e)
  have i: "encryptChars R this (xs @ c # ys) =
             Some (take (length xs) out @ c # drop (length xs) out, this1)"
    if "encryptChars R this (xs @ ys) = Some (out, this1)" for xs ys out this1
    using na that by (rule encryptChars_insert)
  have j: "process R this (xs @ c # ys) =
             Some (take (length xs) out @ c # drop (length xs) out, this1)"
    if h: "process R this (xs @ ys) = Some (out, this1)" for xs ys out this1
  proof -
    from h have "encryptChars R this (toUpperCase xs @ toUpperCase ys) = Some (out, this1)"
      by (simp add: process_def toUpperCase_append)
    from encryptChars_insert [OF na this]
    have "encryptChars R this (toUpperCase xs @ c # toUpperCase ys) =
            Some (take (length xs) out @ c # drop (length xs) out, this1)"
      by (simp add: toUpperCase_def)
    moreover have "toUpperCase (xs @ c # ys) = toUpperCase xs @ c # toUpperCase ys"
      by (simp add: toUpperCase_def u)
    ultimately show ?thesis by (simp add: process_def)
  qed
  show ?thesis using e i p j by blast
qed

theorem non_alphabetic_pass_through_witness:
  "nonAlphabetic CHR ''5'' \<and>
   encryptChar reflectorB exampleMachine CHR ''5'' = Some (CHR ''5'', exampleMachine) \<and>
   process reflectorB exampleMachine ''5'' = Some (''5'', exampleMachine) \<and>
   (\<exists>this1. encryptChars reflectorB exampleMachine ''HELLO'' = Some (''KIKZL'', this1) \<and>
      encryptChars reflectorB exampleMachine ''HE5LLO'' = Some (''KI5KZL'', this1)) \<and>
   (\<exists>this1. process reflectorB exampleMachine ''hello'' = Some (''KIKZL'', this1) \<and>
      process reflectorB exampleMachine ''he5llo'' = Some (''KI5KZL'', this1))"
proof -
  have h: "nonAlphabetic CHR ''5''" by code_simp
  note t = non_alphabetic_pass_through [OF h, of reflectorB exampleMachine]
  define this1 where "this1 = snd (the (encryptChars reflectorB exampleMachine ''HELLO''))"
  have a: "encryptChars reflectorB exampleMachine (''HE'' @ ''LLO'') = Some (''KIKZL'', this1)"
    unfolding this1_def by code_simp
  with t have "encryptChars reflectorB exampleMachine (''HE'' @ CHR ''5'' # ''LLO'') =
      Some (take (length ''HE'') ''KIKZL'' @ CHR ''5'' # drop (length ''HE'') ''KIKZL'', this1)"
    by blast
  then have b: "encryptChars reflectorB exampleMachine ''HE5LLO'' = Some (''KI5KZL'', this1)"
    by simp
  from a have a': "encryptChars reflectorB exampleMachine ''HELLO'' = Some (''KIKZL'', this1)"
    by simp
  have u: "toUpperCase (''he'' @ ''llo'') = ''HELLO''" by code_simp
  from a have c: "process reflectorB exampleMachine (''he'' @ ''llo'') = Some (''KIKZL'', this1)"
    unfolding process_def u by simp
  with t have "process reflectorB exampleMachine (''he'' @ CHR ''5'' # ''llo'') =
      Some (take (length ''he'') ''KIKZL'' @ CHR ''5'' # drop (length ''he'') ''KIKZL'', this1)"
    by blast
  then have d: "process reflectorB exampleMachine ''he5llo'' = Some (''KI5KZL'', this1)"
    by simp
  from c have c': "process reflectorB exampleMachine ''hello'' = Some (''KIKZL'', this1)"
    by simp
  from t have "encryptChar reflectorB exampleMachine CHR ''5'' = Some (CHR ''5'', exampleMachine)"
    and "process reflectorB exampleMachine ''5'' = Some (''5'', exampleMachine)"
    by blast+
  with h a' b c' d show ?thesis by blast
qed

text \<open>
  C6: for a list of disjoint pairs (no letter mentioned twice), swapping twice gives
  the letter back; each member of a pair maps to its partner; a letter in no pair maps
  to itself.
\<close>

theorem plugboardSwap_is_involution:
  assumes "disjointPairs pairs"
  shows "plugboardSwap (plugboardSwap c pairs) pairs = c \<and>
         (\<forall>(a, b) \<in> set pairs. plugboardSwap a pairs = b \<and> plugboardSwap b pairs = a) \<and>
         (c \<notin> set (plugLetters pairs) \<longrightarrow> plugboardSwap c pairs = c)"
  using plugboardSwap_involution [OF assms] plugboardSwap_partner [OF assms]
    plugboardSwap_notin by blast

theorem plugboardSwap_is_involution_witness:
  "disjointPairs testPairs \<and>
   plugboardSwap (plugboardSwap CHR ''A'' testPairs) testPairs = CHR ''A'' \<and>
   plugboardSwap CHR ''A'' testPairs = CHR ''B'' \<and>
   plugboardSwap CHR ''B'' testPairs = CHR ''A'' \<and>
   plugboardSwap CHR ''C'' testPairs = CHR ''D'' \<and>
   plugboardSwap CHR ''D'' testPairs = CHR ''C'' \<and>
   plugboardSwap CHR ''E'' testPairs = CHR ''E''"
proof -
  have h: "disjointPairs testPairs" by code_simp
  have e: "CHR ''E'' \<notin> set (plugLetters testPairs)" by code_simp
  from plugboardSwap_is_involution [OF h, of "CHR ''A''"]
    plugboardSwap_is_involution [OF h, of "CHR ''E''"] e h
  show ?thesis by (simp add: testPairs_def)
qed

text \<open>
  C8: \<^verbatim>\<open>process\<close> gives the same result (output and final machine) for \<^verbatim>\<open>hello\<close> and
  \<^verbatim>\<open>HELLO\<close>, and for any text and its uppercase form; on a valid machine the output
  holds no lowercase letter.
\<close>

theorem process_case_normalization:
  "process R this ''hello'' = process R this ''HELLO'' \<and>
   process R this s = process R this (toUpperCase s) \<and>
   (wf_reflector R \<and> wf_enigma this \<longrightarrow>
      (\<exists>out this1. process R this s = Some (out, this1) \<and> set out \<inter> set lowercase = {}))"
proof -
  have "toUpperCase ''hello'' = ''HELLO''" by code_simp
  moreover have "toUpperCase ''HELLO'' = ''HELLO''" by code_simp
  ultimately have a: "process R this ''hello'' = process R this ''HELLO''"
    by (simp add: process_def)
  have b: "process R this s = process R this (toUpperCase s)"
    by (simp add: process_def toUpperCase_idem)
  have c: "\<exists>out this1. process R this s = Some (out, this1) \<and> set out \<inter> set lowercase = {}"
    if w: "wf_reflector R" "wf_enigma this"
  proof -
    from encryptChars_round_trip [OF w, of "toUpperCase s"]
    obtain out this1 where o: "encryptChars R this (toUpperCase s) = Some (out, this1)"
      "set out \<subseteq> set (toUpperCase s) \<union> set alphabet" by blast
    have "set out \<inter> set lowercase = {}"
      using o(2) toUpperCase_not_lowercase [of s] alphabet_not_lowercase by blast
    with o(1) show ?thesis by (simp add: process_def)
  qed
  from a b c show ?thesis by blast
qed

theorem process_case_normalization_witness:
  "wf_reflector reflectorB \<and> wf_enigma exampleMachine \<and>
   process reflectorB exampleMachine ''hello'' = process reflectorB exampleMachine ''HELLO'' \<and>
   process reflectorB exampleMachine ''Hi, there'' =
     process reflectorB exampleMachine (toUpperCase ''Hi, there'') \<and>
   (\<exists>out this1. process reflectorB exampleMachine ''Hi, there'' = Some (out, this1) \<and>
      set out \<inter> set lowercase = {})"
proof -
  have h1: "wf_reflector reflectorB" by code_simp
  have h2: "wf_enigma exampleMachine" by code_simp
  from process_case_normalization [of reflectorB exampleMachine "''Hi, there''"] h1 h2
  show ?thesis by blast
qed

text \<open>
  C10: in every valid machine state (any rotor positions and ring settings, any valid
  plugboard) and for every letter \<open>c\<close> of the alphabet, \<^verbatim>\<open>encryptChar\<close>
  (\<^verbatim>\<open>src/unnamed/part_003\<close>, lines 83-99) returns a letter other than \<open>c\<close>.
\<close>

theorem encryptChar_no_self_encryption:
  assumes "wf_reflector R" and "wf_enigma this" and "c \<in> set alphabet"
  shows "\<exists>d this1. encryptChar R this c = Some (d, this1) \<and> d \<in> set alphabet \<and> d \<noteq> c"
proof -
  from encryptChar_letter [OF assms]
  obtain d this1 where "encryptChar R this c = Some (d, this1)" "d \<in> set alphabet" "d \<noteq> c"
    by blast
  then show ?thesis by blast
qed

theorem encryptChar_no_self_encryption_witness:
  "wf_reflector reflectorB \<and> wf_enigma exampleMachine \<and> CHR ''K'' \<in> set alphabet \<and>
   (\<exists>d this1. encryptChar reflectorB exampleMachine CHR ''K'' = Some (d, this1) \<and>
      d \<in> set alphabet \<and> d \<noteq> CHR ''K'')"
proof -
  have h1: "wf_reflector reflectorB" by code_simp
  have h2: "wf_enigma exampleMachine" by code_simp
  have h3: "CHR ''K'' \<in> set alphabet" by (simp add: alphabet_def)
  show ?thesis
    using encryptChar_no_self_encryption [OF h1 h2 h3] h1 h2 h3 by simp
qed

end
